theory Spec2Isabelle
  imports Main "HOL-Library.AList"
begin

section \<open>The rate limit engine of RateLimit.service.ts\<close>

text \<open>
  A shallow embedding of the class \<open>RateLimitService\<close>: the window parser, the
  in-memory fallback counter, the Redis path with its per-call fallback, decrement,
  the health check and the shutdown hook.

  Conventions of the model.
  \<^item> Clock readings (\<open>Date.now()\<close>, an integral number of milliseconds well below
    \<open>2^53\<close>), the timestamps stored from them, the limit and the counts of hits are
    integers (\<open>int\<close>).
  \<^item> The parsed window, and what is computed from it (\<open>windowStart\<close>, \<open>resetTime\<close>),
    are JavaScript numbers: IEEE 754 doubles. All of them are whole numbers or
    infinite here, so a \<open>number\<close> is an integer that a double can hold, \<open>Infinity\<close>,
    \<open>-Infinity\<close> or \<open>NaN\<close>, and every arithmetic operation rounds its exact result to
    the nearest double, ties to even, as the source does.
  \<^item> Strings are lists of 8-bit characters. The regular expression of \<open>parseWindow\<close>
    matches ASCII characters only, so a character outside that range makes the parse
    fail in the source as it does here.
  \<^item> \<open>Date.now()\<close> is an argument \<open>now\<close> of every operation that reads the clock.
  \<^item> The map \<^verbatim>\<open>Map<string, number[]>\<close> is an association list in insertion order;
    \<open>Map.get\<close> is \<open>map_of\<close>, \<open>Map.set\<close> is \<open>AList.update\<close> (overwrite in place, or
    append a new key), \<open>Map.delete\<close> is \<open>AList.delete\<close>, \<open>Map.size\<close> is \<open>length\<close>.
    A JavaScript map never holds a key twice: \<open>distinct (map fst m)\<close>.
  \<^item> What the Redis client answers is outside the class, so each operation that
    talks to Redis takes the answer as an argument.
  \<^item> A thrown exception is the \<open>Inl\<close> branch of a sum. Logger calls have no effect on
    the results and are left out.
\<close>

subsection \<open>JavaScript numbers\<close>

datatype number = Num int | Infinity | NegInfinity | NaN

text \<open>The number of binary digits of a natural number.\<close>

fun bit_length :: "nat \<Rightarrow> nat" where
  "bit_length n = (if n = 0 then 0 else Suc (bit_length (n div 2)))"

declare bit_length.simps [simp del]

text \<open>Rounding a natural number to 53 significant binary digits, to the nearest such
  value and to the one with an even last digit when two are equally near: with
  \<open>e\<close> the number of digits beyond 53, \<open>q\<close> the leading 53 digits and \<open>r\<close> the rest.\<close>

definition round53 :: "nat \<Rightarrow> nat" where
  "round53 n =
     (if n < 2 ^ 53 then n
      else (let e = bit_length n - 53;
                q = n div 2 ^ e;
                r = n mod 2 ^ e;
                half = 2 ^ (e - 1)
            in if r < half \<or> (r = half \<and> even q) then q * 2 ^ e else (q + 1) * 2 ^ e))"

text \<open>The Number value of a mathematical integer: the nearest double, and an infinity
  when the rounded magnitude reaches \<open>2^1024\<close>.\<close>

definition to_double :: "int \<Rightarrow> number" where
  "to_double i =
     (let m = round53 (nat \<bar>i\<bar>)
      in if 2 ^ 1024 \<le> m then (if i < 0 then NegInfinity else Infinity)
         else Num (if i < 0 then - int m else int m))"

text \<open>The operators of the source on these numbers. The left operand of \<open>-\<close>, \<open>+\<close>
  and \<open>>\<close> is a clock reading or a timestamp, the right operand of \<open>*\<close> an entry
  of the table \<open>units\<close>.\<close>

fun js_mul :: "number \<Rightarrow> int \<Rightarrow> number" where
  "js_mul (Num a) m = to_double (a * m)"
| "js_mul Infinity m = (if 0 < m then Infinity else if m < 0 then NegInfinity else NaN)"
| "js_mul NegInfinity m = (if 0 < m then NegInfinity else if m < 0 then Infinity else NaN)"
| "js_mul NaN m = NaN"

fun js_sub :: "int \<Rightarrow> number \<Rightarrow> number" where
  "js_sub a (Num b) = to_double (a - b)"
| "js_sub a Infinity = NegInfinity"
| "js_sub a NegInfinity = Infinity"
| "js_sub a NaN = NaN"

fun js_add :: "int \<Rightarrow> number \<Rightarrow> number" where
  "js_add a (Num b) = to_double (a + b)"
| "js_add a Infinity = Infinity"
| "js_add a NegInfinity = NegInfinity"
| "js_add a NaN = NaN"

fun js_gt :: "int \<Rightarrow> number \<Rightarrow> bool" where
  "js_gt t (Num x) = (x < t)"
| "js_gt t Infinity = False"
| "js_gt t NegInfinity = True"
| "js_gt t NaN = False"

subsection \<open>Data\<close>

datatype error =
    InvalidWindowFormat string
  | PipelineExecutionFailed
  | RedisError

record RateLimitOptions =
  requests :: int
  window :: string

record RateLimitResult =
  allowed :: bool
  remaining :: int
  resetTime :: number
  totalHits :: int

datatype redis_client = Redis string

type_synonym storage = "(string \<times> int list) list"

record RateLimitService =
  redis :: "redis_client option"
  fallbackStorage :: storage

text \<open>The outcome of \<open>await pipeline.exec()\<close> in \<open>redisRateLimit\<close>: the promise rejects,
  it resolves to \<open>null\<close>, or it resolves to the replies, of which the code reads the
  third, the pair \<open>[countErr, totalHits]\<close> of \<open>zcard\<close> (\<open>countErr\<close> truthy or not,
  \<open>totalHits\<close> a number or \<open>null\<close>).\<close>

datatype exec_outcome =
    ExecRejects
  | ExecNull
  | ExecReplies bool "int option"

text \<open>The outcome of the Redis calls of \<open>decrementRateLimit\<close>: \<open>zrevrange\<close> rejects, or
  it returns the entries and the following \<open>pipeline.exec()\<close> (issued only when there
  are at least two entries) rejects or not.\<close>

datatype decrement_outcome =
    ZrevrangeRejects
  | ZrevrangeEntries "string list" bool

datatype ping_outcome = PingOk | PingRejects

subsection \<open>parseWindow\<close>

datatype unit_char = S | M | H | D

text \<open>The table \<open>units\<close>.\<close>

fun units :: "unit_char \<Rightarrow> int" where
  "units S = 1000"
| "units M = 60 * 1000"
| "units H = 60 * 60 * 1000"
| "units D = 24 * 60 * 60 * 1000"

text \<open>The character class \<open>[smhd]\<close>.\<close>

definition unit_of_char :: "char \<Rightarrow> unit_char option" where
  "unit_of_char c =
     (if c = CHR ''s'' then Some S
      else if c = CHR ''m'' then Some M
      else if c = CHR ''h'' then Some H
      else if c = CHR ''d'' then Some D
      else None)"

text \<open>The character class \<open>\d\<close> (without the unicode flag: the ten ASCII digits).\<close>

definition is_digit :: "char \<Rightarrow> bool" where
  "is_digit c = (c \<in> set ''0123456789'')"

definition digit_value :: "char \<Rightarrow> int" where
  "digit_value c = int (of_char c) - 48"

text \<open>\<open>parseInt(amount, 10)\<close> on a string of digits: the integer that the digits
  denote, read from the left, as a Number value. (The language standard lets an
  implementation read the digits after the twentieth significant one as zeros; the
  model reads every digit, as the V8 engine of Node.js does.)\<close>

definition parseInt10 :: "string \<Rightarrow> number" where
  "parseInt10 amount = to_double (foldl (\<lambda>acc c. acc * 10 + digit_value c) 0 amount)"

text \<open>\<open>window.match(/^(\d+)([smhd])$/)\<close>: the two groups, or \<open>None\<close> for \<open>null\<close>. The
  last character is the unit, everything before it is the amount, which must be a
  non-empty run of digits.\<close>

definition window_match :: "string \<Rightarrow> (string \<times> unit_char) option" where
  "window_match w =
     (if w = [] then None
      else (case unit_of_char (last w) of
              None \<Rightarrow> None
            | Some unit \<Rightarrow>
                if butlast w \<noteq> [] \<and> list_all is_digit (butlast w)
                then Some (butlast w, unit) else None))"

definition parseWindow :: "string \<Rightarrow> error + number" where
  "parseWindow w =
     (case window_match w of
        None \<Rightarrow> Inl (InvalidWindowFormat w)
      | Some (amount, unit) \<Rightarrow> Inr (js_mul (parseInt10 amount) (units unit)))"

text \<open>The value of a decimal numeral as the specification reads it: the sum of the
  digits weighted by their powers of ten, the last digit having weight one.\<close>

fun decimal_value :: "string \<Rightarrow> int" where
  "decimal_value [] = 0"
| "decimal_value (c # cs) = digit_value c * 10 ^ length cs + decimal_value cs"

subsection \<open>The in-memory fallback\<close>

text \<open>\<open>cleanupFallbackStorage\<close>: the loop over the entries of the map, which deletes or
  overwrites the entry it is visiting. The first argument of the loop is what is left
  to visit, the second the map.\<close>

fun cleanup_loop :: "number \<Rightarrow> storage \<Rightarrow> storage \<Rightarrow> storage" where
  "cleanup_loop windowStart [] m = m"
| "cleanup_loop windowStart ((key, timestamps) # rest) m =
     (let validTimestamps = filter (\<lambda>timestamp. js_gt timestamp windowStart) timestamps
      in cleanup_loop windowStart rest
           (if length validTimestamps = 0 then AList.delete key m
            else AList.update key validTimestamps m))"

definition cleanupFallbackStorage :: "number \<Rightarrow> storage \<Rightarrow> storage" where
  "cleanupFallbackStorage windowStart m = cleanup_loop windowStart m m"

definition fallbackRateLimit ::
  "RateLimitService \<Rightarrow> string \<Rightarrow> RateLimitOptions \<Rightarrow> int
     \<Rightarrow> error + (RateLimitResult \<times> RateLimitService)" where
  "fallbackRateLimit this key options now =
     (case parseWindow (window options) of
        Inl err \<Rightarrow> Inl err
      | Inr windowMs \<Rightarrow>
          (let windowStart = js_sub now windowMs;
               (timestamps, created) =
                 (case map_of (fallbackStorage this) key of
                    None \<Rightarrow> ([], AList.update key [] (fallbackStorage this))
                  | Some ts \<Rightarrow> (ts, fallbackStorage this));
               validTimestamps =
                 filter (\<lambda>timestamp. js_gt timestamp windowStart) timestamps @ [now];
               stored = AList.update key validTimestamps created;
               hits = int (length validTimestamps);
               result = \<lparr>allowed = (hits \<le> requests options),
                         remaining = max 0 (requests options - hits),
                         resetTime = js_add now windowMs,
                         totalHits = hits\<rparr>;
               cleaned = (if length stored > 1000
                          then cleanupFallbackStorage windowStart stored else stored)
           in Inr (result, this\<lparr>fallbackStorage := cleaned\<rparr>)))"

subsection \<open>The Redis path and checkRateLimit\<close>

definition redisRateLimit ::
  "exec_outcome \<Rightarrow> RateLimitOptions \<Rightarrow> int \<Rightarrow> number \<Rightarrow> number \<Rightarrow> error + RateLimitResult" where
  "redisRateLimit results options now windowStart windowMs =
     (case results of
        ExecRejects \<Rightarrow> Inl RedisError
      | ExecNull \<Rightarrow> Inl PipelineExecutionFailed
      | ExecReplies countErr count \<Rightarrow>
          if countErr then Inl RedisError
          else (let hits = (case count of None \<Rightarrow> 0 | Some n \<Rightarrow> if n = 0 then 0 else n)
                in Inr \<lparr>allowed = (hits \<le> requests options),
                        remaining = max 0 (requests options - hits),
                        resetTime = js_add now windowMs,
                        totalHits = hits\<rparr>))"

definition checkRateLimit ::
  "RateLimitService \<Rightarrow> exec_outcome \<Rightarrow> string \<Rightarrow> RateLimitOptions \<Rightarrow> int
     \<Rightarrow> error + (RateLimitResult \<times> RateLimitService)" where
  "checkRateLimit this results key options now =
     (case parseWindow (window options) of
        Inl err \<Rightarrow> Inl err
      | Inr windowMs \<Rightarrow>
          (let windowStart = js_sub now windowMs
           in if redis this = None then fallbackRateLimit this key options now
              else (case redisRateLimit results options now windowStart windowMs of
                      Inr result \<Rightarrow> Inr (result, this)
                    | Inl err \<Rightarrow> fallbackRateLimit this key options now)))"

subsection \<open>decrementRateLimit, healthCheck, onModuleDestroy\<close>

text \<open>The body of the \<open>try\<close> block of \<open>decrementRateLimit\<close>.\<close>

definition decrement_redis :: "decrement_outcome \<Rightarrow> error + unit" where
  "decrement_redis outcome =
     (case outcome of
        ZrevrangeRejects \<Rightarrow> Inl RedisError
      | ZrevrangeEntries entries execRejects \<Rightarrow>
          if length entries \<ge> 2 then (if execRejects then Inl RedisError else Inr ())
          else Inr ())"

definition decrementRateLimit ::
  "RateLimitService \<Rightarrow> decrement_outcome \<Rightarrow> string \<Rightarrow> error + RateLimitService" where
  "decrementRateLimit this outcome key =
     (if redis this = None then
        (case map_of (fallbackStorage this) key of
           None \<Rightarrow> Inr this
         | Some timestamps \<Rightarrow>
             if length timestamps > 0 then
               (let popped = butlast timestamps
                in if length popped = 0
                   then Inr (this\<lparr>fallbackStorage := AList.delete key (fallbackStorage this)\<rparr>)
                   else Inr (this\<lparr>fallbackStorage :=
                                     AList.update key popped (fallbackStorage this)\<rparr>))
             else Inr this)
      else (case decrement_redis outcome of
              Inr u \<Rightarrow> Inr this
            | Inl err \<Rightarrow> Inr this))"

definition healthCheck :: "RateLimitService \<Rightarrow> ping_outcome \<Rightarrow> bool \<times> RateLimitService" where
  "healthCheck this ping =
     (if redis this = None then (False, this)
      else (case ping of PingOk \<Rightarrow> (True, this) | PingRejects \<Rightarrow> (False, this)))"

definition onModuleDestroy :: "RateLimitService \<Rightarrow> RateLimitService" where
  "onModuleDestroy this = this\<lparr>fallbackStorage := []\<rparr>"

subsection \<open>Runs of the engine\<close>

text \<open>The history stored under a key, empty when the key is absent.\<close>

definition hits_of :: "RateLimitService \<Rightarrow> string \<Rightarrow> int list" where
  "hits_of this key = (case map_of (fallbackStorage this) key of None \<Rightarrow> [] | Some ts \<Rightarrow> ts)"

text \<open>The timestamps of a history that a call with the given \<open>windowStart\<close> keeps.\<close>

definition valid_hits :: "number \<Rightarrow> int list \<Rightarrow> int list" where
  "valid_hits windowStart timestamps = filter (\<lambda>timestamp. js_gt timestamp windowStart) timestamps"

text \<open>What every map of the service satisfies: no key twice (it is a JavaScript map),
  and no key with an empty history.\<close>

definition storage_ok :: "storage \<Rightarrow> bool" where
  "storage_ok m = (distinct (map fst m) \<and> list_all (\<lambda>entry. snd entry \<noteq> []) m)"

text \<open>The Redis outcomes on which \<open>redisRateLimit\<close> throws, and the calls that are
  served from memory: no client is attached, or the Redis path throws.\<close>

definition exec_fails :: "exec_outcome \<Rightarrow> bool" where
  "exec_fails results =
     (case results of ExecRejects \<Rightarrow> True | ExecNull \<Rightarrow> True
      | ExecReplies countErr count \<Rightarrow> countErr)"

definition local_path :: "RateLimitService \<Rightarrow> exec_outcome \<Rightarrow> bool" where
  "local_path this results = (redis this = None \<or> exec_fails results)"

text \<open>The result record that the formulas of the code give for a number of hits.\<close>

definition result_of :: "RateLimitOptions \<Rightarrow> int \<Rightarrow> number \<Rightarrow> int \<Rightarrow> RateLimitResult" where
  "result_of options now windowMs hits =
     \<lparr>allowed = (hits \<le> requests options),
      remaining = max 0 (requests options - hits),
      resetTime = js_add now windowMs,
      totalHits = hits\<rparr>"

text \<open>Consecutive \<open>checkRateLimit\<close> calls on one key and one policy, one per clock
  reading, each with its own Redis outcome. An exception ends the run.\<close>

fun check_all ::
  "RateLimitService \<Rightarrow> string \<Rightarrow> RateLimitOptions \<Rightarrow> (exec_outcome \<times> int) list
     \<Rightarrow> error + (RateLimitResult list \<times> RateLimitService)" where
  "check_all this key options [] = Inr ([], this)"
| "check_all this key options ((results, now) # calls) =
     (case checkRateLimit this results key options now of
        Inl err \<Rightarrow> Inl err
      | Inr (r, this') \<Rightarrow>
          (case check_all this' key options calls of
             Inl err \<Rightarrow> Inl err
           | Inr (rs, this'') \<Rightarrow> Inr (r # rs, this'')))"

text \<open>The states of the service: it is constructed with no Redis client and an empty
  map; \<open>initializeRedis\<close> may attach a client later (it runs asynchronously, so checks
  can come first); every operation leads from a state to a state.\<close>

inductive reachable :: "RateLimitService \<Rightarrow> bool" where
  constructed: "reachable \<lparr>redis = None, fallbackStorage = []\<rparr>"
| initializeRedis: "reachable this \<Longrightarrow> redis this = None \<Longrightarrow> reachable (this\<lparr>redis := Some c\<rparr>)"
| check: "reachable this \<Longrightarrow> checkRateLimit this results key options now = Inr (r, this')
            \<Longrightarrow> reachable this'"
| decrement: "reachable this \<Longrightarrow> decrementRateLimit this outcome key = Inr this'
            \<Longrightarrow> reachable this'"
| health: "reachable this \<Longrightarrow> reachable (snd (healthCheck this ping))"
| destroy: "reachable this \<Longrightarrow> reachable (onModuleDestroy this)"



section \<open>Properties\<close>

lemma units_positive: "0 < units u"
  by (cases u) simp_all

subsection \<open>Rounding to a double\<close>

declare power_numeral [simp del]

lemma bit_length_bounds:
  "0 < n \<Longrightarrow> 2 ^ (bit_length n - 1) \<le> n \<and> n < 2 ^ bit_length n"
proof (induction n rule: bit_length.induct)
  case (1 n)
  show ?case
  proof (cases "n div 2 = 0")
    case True
    with "1.prems" have "n = Suc 0" by (simp add: div_eq_0_iff)
    then show ?thesis by (simp add: bit_length.simps [of "Suc 0"] bit_length.simps [of 0])
  next
    case False
    then have pos: "0 < n div 2" by simp
    from "1.IH" "1.prems" pos have IH: "2 ^ (bit_length (n div 2) - 1) \<le> n div 2"
      "n div 2 < 2 ^ bit_length (n div 2)" by simp_all
    from pos have bl: "0 < bit_length (n div 2)"
      by (simp add: bit_length.simps [of "n div 2"])
    have eq: "bit_length n = Suc (bit_length (n div 2))"
      using "1.prems" by (simp add: bit_length.simps [of n])
    have "2 ^ (bit_length n - 1) = 2 * 2 ^ (bit_length (n div 2) - 1)"
      using bl by (cases "bit_length (n div 2)") (simp_all add: eq)
    also have "\<dots> \<le> 2 * (n div 2)" using IH(1) by simp
    also have "\<dots> \<le> n" by simp
    finally have lo: "2 ^ (bit_length n - 1) \<le> n" .
    have "n < 2 * (n div 2) + 2" by presburger
    also have "\<dots> \<le> 2 * 2 ^ bit_length (n div 2)" using IH(2) by simp
    finally have hi: "n < 2 ^ bit_length n" by (simp add: eq)
    from lo hi show ?thesis ..
  qed
qed

lemma round53_small: "n < 2 ^ 53 \<Longrightarrow> round53 n = n"
  by (simp add: round53_def)

lemma round53_lower:
  assumes "2 ^ 53 \<le> n"
  shows "2 ^ (bit_length n - 1) \<le> round53 n" and "54 \<le> bit_length n"
proof -
  have "(0::nat) < 2 ^ 53" by simp
  with assms have pos: "0 < n" by linarith
  note b = bit_length_bounds [OF pos]
  from assms b have "(2::nat) ^ 53 < 2 ^ bit_length n" by linarith
  then have "53 < bit_length n" by (simp add: power_strict_increasing_iff)
  then show big: "54 \<le> bit_length n" by simp
  define e where "e = bit_length n - 53"
  have split: "bit_length n - 1 = 52 + e" using big by (simp add: e_def)
  have "2 ^ 52 * 2 ^ e \<le> n" using b split by (simp add: power_add)
  then have q: "2 ^ 52 \<le> n div 2 ^ e"
    by (simp add: less_eq_div_iff_mult_less_eq)
  have r: "(n div 2 ^ e) * 2 ^ e \<le> round53 n"
    using assms by (simp add: round53_def Let_def e_def)
  have "2 ^ (bit_length n - 1) = (2::nat) ^ 52 * 2 ^ e"
    by (simp only: split power_add)
  also have "\<dots> \<le> (n div 2 ^ e) * 2 ^ e"
    using q by (rule mult_le_mono1)
  also note r
  finally show "2 ^ (bit_length n - 1) \<le> round53 n" .
qed

lemma round53_at_2_53: "round53 (2 ^ 53) = 2 ^ 53"
proof -
  have pos: "0 < (2::nat) ^ 53" by simp
  from bit_length_bounds [OF pos] have "(2::nat) ^ (bit_length (2 ^ 53) - 1) \<le> 2 ^ 53"
    and "(2::nat) ^ 53 < 2 ^ bit_length (2 ^ 53)" by simp_all
  then have "bit_length (2 ^ 53) - 1 \<le> 53" and "53 < bit_length (2 ^ 53)"
    by (simp_all add: power_strict_increasing_iff power_increasing_iff)
  then have bl: "bit_length (2 ^ 53) = 54" by simp
  then have bl': "bit_length 9007199254740992 = 54" by (simp add: power_numeral)
  show ?thesis by (simp add: round53_def bl' power_numeral Let_def)
qed

lemma round53_exact: "n \<le> 2 ^ 53 \<Longrightarrow> round53 n = n"
  using round53_small [of n] round53_at_2_53 by (cases "n = 2 ^ 53") auto

lemma round53_big:
  assumes "2 ^ 53 \<le> n"
  shows "2 ^ 53 \<le> round53 n"
proof -
  from round53_lower [OF assms] have low: "2 ^ (bit_length n - 1) \<le> round53 n"
    and "53 \<le> bit_length n - 1" by simp_all
  from this(2) have "(2::nat) ^ 53 \<le> 2 ^ (bit_length n - 1)"
    by (simp add: power_increasing_iff)
  with low show ?thesis by (rule order_trans [rotated])
qed


lemma round53_zero: "round53 n = 0 \<longleftrightarrow> n = 0"
proof (cases "n < 2 ^ 53")
  case True
  then show ?thesis by (simp add: round53_small)
next
  case False
  then have "2 ^ 53 \<le> round53 n" by (simp add: round53_big)
  moreover have "(0::nat) < 2 ^ 53" by simp
  ultimately have "0 < round53 n" by linarith
  moreover from False \<open>(0::nat) < 2 ^ 53\<close> have "n \<noteq> 0" by linarith
  ultimately show ?thesis by simp
qed

lemma to_double_exact:
  assumes "\<bar>i\<bar> \<le> 2 ^ 53"
  shows "to_double i = Num i"
proof -
  from assms have "nat \<bar>i\<bar> \<le> 2 ^ 53" by simp
  then have r: "round53 (nat \<bar>i\<bar>) = nat \<bar>i\<bar>" by (rule round53_exact)
  have "(2::nat) ^ 53 < 2 ^ 1024" by (simp add: power_strict_increasing_iff)
  with \<open>nat \<bar>i\<bar> \<le> 2 ^ 53\<close> have "\<not> 2 ^ 1024 \<le> nat \<bar>i\<bar>" by linarith
  then show ?thesis by (simp add: to_double_def r Let_def)
qed

lemma to_double_nonneg:
  "0 \<le> i \<Longrightarrow> to_double i = Infinity \<or> (\<exists>m. to_double i = Num m \<and> 0 \<le> m \<and> (m = 0 \<longleftrightarrow> i = 0))"
  by (auto simp: to_double_def Let_def round53_zero)


lemma to_double_below:
  assumes "i < - (2 ^ 53)"
  shows "to_double i = NegInfinity \<or> (\<exists>m. to_double i = Num m \<and> m \<le> - (2 ^ 53))"
proof -
  have "(0::int) < 2 ^ 53" by simp
  with assms have neg: "i < 0" by linarith
  from assms have "int (2 ^ 53) \<le> \<bar>i\<bar>" by simp
  then have "2 ^ 53 \<le> nat \<bar>i\<bar>" by linarith
  then have "2 ^ 53 \<le> round53 (nat \<bar>i\<bar>)" by (rule round53_big)
  then have "int (2 ^ 53) \<le> int (round53 (nat \<bar>i\<bar>))" by (simp only: of_nat_le_iff)
  then have "- int (round53 (nat \<bar>i\<bar>)) \<le> - (2 ^ 53)" by simp
  with neg show ?thesis by (simp add: to_double_def Let_def)
qed

lemma js_gt_sub_exact:
  assumes "\<bar>t\<bar> < 2 ^ 53" and "\<bar>now\<bar> \<le> 2 ^ 53" and "0 \<le> w"
  shows "js_gt t (js_sub now (Num w)) \<longleftrightarrow> now - w < t"
proof (cases "now - w < - (2 ^ 53)")
  case True
  from assms(1) have "- (2 ^ 53) < t" by simp
  with to_double_below [OF True] True show ?thesis by auto
next
  case False
  with assms(2,3) have "\<bar>now - w\<bar> \<le> 2 ^ 53" by simp
  then show ?thesis by (simp add: to_double_exact)
qed

lemma js_gt_own:
  assumes "\<bar>now\<bar> < 2 ^ 53" and "0 \<le> w"
  shows "js_gt now (js_sub now (Num w)) \<longleftrightarrow> w \<noteq> 0"
  using js_gt_sub_exact [of now now w] assms by auto



declare power_numeral [simp]

subsection \<open>The window parser\<close>

lemma digit_value_range: "is_digit c \<Longrightarrow> 0 \<le> digit_value c \<and> digit_value c \<le> 9"
  by (auto simp: is_digit_def digit_value_def)

lemma digit_value_zero: "is_digit c \<Longrightarrow> digit_value c = 0 \<longleftrightarrow> c = CHR ''0''"
  by (auto simp: is_digit_def digit_value_def)

lemma foldl_decimal:
  "foldl (\<lambda>acc c. acc * 10 + digit_value c) a ds = a * 10 ^ length ds + decimal_value ds"
  by (induction ds arbitrary: a) (simp_all add: algebra_simps)

lemma parseInt10_decimal: "parseInt10 ds = to_double (decimal_value ds)"
  by (simp add: parseInt10_def foldl_decimal)

lemma decimal_value_nonneg: "list_all is_digit ds \<Longrightarrow> 0 \<le> decimal_value ds"
  by (induction ds) (simp_all add: digit_value_range)

lemma decimal_value_zero:
  "list_all is_digit ds \<Longrightarrow> decimal_value ds = 0 \<longleftrightarrow> (\<forall>c\<in>set ds. c = CHR ''0'')"
proof (induction ds)
  case Nil
  show ?case by simp
next
  case (Cons c cs)
  then have c: "is_digit c" and cs: "list_all is_digit cs" by simp_all
  have a: "0 \<le> digit_value c * 10 ^ length cs"
    using digit_value_range [OF c] by simp
  have b: "0 \<le> decimal_value cs" by (rule decimal_value_nonneg [OF cs])
  have "decimal_value (c # cs) = 0 \<longleftrightarrow> digit_value c * 10 ^ length cs = 0 \<and> decimal_value cs = 0"
    unfolding decimal_value.simps using a b by (rule add_nonneg_eq_0_iff)
  also have "\<dots> \<longleftrightarrow> c = CHR ''0'' \<and> (\<forall>c\<in>set cs. c = CHR ''0'')"
    using Cons.IH [OF cs] digit_value_zero [OF c] by simp
  finally show ?case by simp
qed

lemma window_match_snoc:
  "window_match (ds @ [u]) =
     (case unit_of_char u of None \<Rightarrow> None
      | Some un \<Rightarrow> if ds \<noteq> [] \<and> list_all is_digit ds then Some (ds, un) else None)"
  by (simp add: window_match_def split: option.splits)

lemma window_match_Some:
  assumes "window_match w = Some (amount, un)"
  shows "\<exists>u. w = amount @ [u] \<and> amount \<noteq> [] \<and> list_all is_digit amount \<and> unit_of_char u = Some un"
proof (cases w rule: rev_cases)
  case Nil
  with assms show ?thesis by (simp add: window_match_def)
next
  case (snoc ds u)
  with assms show ?thesis by (auto simp: window_match_snoc split: option.splits if_splits)
qed



lemma parseWindow_Inr:
  "parseWindow w = Inr ms \<Longrightarrow>
     \<exists>ds u un. w = ds @ [u] \<and> ds \<noteq> [] \<and> list_all is_digit ds \<and> unit_of_char u = Some un
        \<and> ms = js_mul (to_double (decimal_value ds)) (units un)"
  by (auto simp: parseWindow_def parseInt10_decimal split: option.splits dest!: window_match_Some)




lemma window_product_shape:
  assumes "0 \<le> d"
  shows "(js_mul (to_double d) (units un) = Infinity
          \<or> (\<exists>n. js_mul (to_double d) (units un) = Num n \<and> 0 \<le> n))
       \<and> (js_mul (to_double d) (units un) = Num 0 \<longleftrightarrow> d = 0)"
proof -
  have pos: "0 < units un" by (rule units_positive)
  from to_double_nonneg [OF assms] show ?thesis
  proof
    assume "to_double d = Infinity"
    moreover from this have "d \<noteq> 0" by (auto simp: to_double_exact)
    ultimately show ?thesis using pos by simp
  next
    assume "\<exists>m. to_double d = Num m \<and> 0 \<le> m \<and> (m = 0 \<longleftrightarrow> d = 0)"
    then obtain m where m: "to_double d = Num m" "0 \<le> m" "m = 0 \<longleftrightarrow> d = 0" by blast
    from m(2) pos have "0 \<le> m * units un" by simp
    from to_double_nonneg [OF this] pos m show ?thesis by auto
  qed
qed

lemma parseWindow_shape:
  assumes "parseWindow w = Inr ms"
  shows "(ms = Infinity \<or> (\<exists>n. ms = Num n \<and> 0 \<le> n))
       \<and> (ms = Num 0 \<longleftrightarrow> (\<forall>c\<in>set (butlast w). c = CHR ''0''))"
proof -
  from parseWindow_Inr [OF assms] obtain ds u un where w: "w = ds @ [u]"
    and ds: "list_all is_digit ds" and ms: "ms = js_mul (to_double (decimal_value ds)) (units un)"
    by blast
  have nn: "0 \<le> decimal_value ds" by (rule decimal_value_nonneg [OF ds])
  from window_product_shape [OF nn, of un] decimal_value_zero [OF ds] show ?thesis
    by (simp add: ms w)
qed


lemmas eval_parse = parseWindow_def window_match_def unit_of_char_def is_digit_def
  parseInt10_def digit_value_def to_double_exact

subsection \<open>Claim C3: the grammar and the values of parseWindow\<close>




subsection \<open>Claim C4: the sign of a parsed window\<close>

text \<open>
  The string \<open>0s\<close> matches the regular expression, and \<open>parseWindow\<close> returns zero
  for it: no exception is raised.
\<close>

theorem zero_window_accepted: "parseWindow ''0s'' = Inr (Num 0)"
  by (simp add: eval_parse)

text \<open>
  Claim C4, as the code has it. Whenever \<open>parseWindow\<close> succeeds the number of
  milliseconds is not negative (a whole number from zero on, or \<open>Infinity\<close>), and it is
  strictly positive exactly when some digit of the amount is not \<open>0\<close>.
\<close>

theorem parseWindow_nonnegative:
  "parseWindow w = Inr ms \<Longrightarrow>
     (ms = Infinity \<or> (\<exists>n. ms = Num n \<and> 0 \<le> n))
     \<and> ((ms = Infinity \<or> (\<exists>n. ms = Num n \<and> 0 < n))
          \<longleftrightarrow> (\<exists>c\<in>set (butlast w). c \<noteq> CHR ''0''))"
proof -
  assume "parseWindow w = Inr ms"
  from parseWindow_shape [OF this] show ?thesis by auto
qed

theorem parseWindow_nonnegative_witness:
  "parseWindow ''00d'' = Inr (Num 0) \<and> parseWindow ''15m'' = Inr (Num 900000)
   \<and> (\<exists>n. Num 900000 = Num n \<and> 0 < n)
   \<and> (\<exists>c\<in>set (butlast ''15m''). c \<noteq> CHR ''0'')"
proof -
  have a: "parseWindow ''00d'' = Inr (Num 0)"
    by (simp add: eval_parse)
  have b: "parseWindow ''15m'' = Inr (Num 900000)"
    by (simp add: eval_parse)
  show ?thesis using a b parseWindow_nonnegative [OF b] by auto
qed

subsection \<open>The map and its cleanup\<close>

lemma cleanup_loop_lookup:
  "distinct (map fst es) \<Longrightarrow>
     map_of (cleanup_loop ws es m) k =
       (case map_of es k of
          None \<Rightarrow> map_of m k
        | Some ts \<Rightarrow> if valid_hits ws ts = [] then None else Some (valid_hits ws ts))"
proof (induction es arbitrary: m)
  case Nil
  show ?case by simp
next
  case (Cons e es)
  obtain key ts where e: "e = (key, ts)" by (cases e)
  from Cons.prems e have d: "distinct (map fst es)" and fresh: "map_of es key = None"
    by (auto simp: map_of_eq_None_iff)
  note IH = Cons.IH [OF d, unfolded valid_hits_def]
  show ?case
  proof (cases "k = key")
    case True
    have "map_of (cleanup_loop ws es m') key = map_of m' key" for m'
      using IH [of m'] fresh True by simp
    then show ?thesis
      using True by (simp add: e Let_def valid_hits_def AList.update_conv AList.delete_conv)
  next
    case False
    then show ?thesis
      by (simp add: e IH Let_def valid_hits_def AList.update_conv AList.delete_conv
          split: option.splits)
  qed
qed

lemma cleanup_loop_distinct:
  "distinct (map fst m) \<Longrightarrow> distinct (map fst (cleanup_loop ws es m))"
  by (induction es arbitrary: m)
     (auto simp: AList.distinct_update AList.distinct_delete Let_def)

lemma cleanup_lookup:
  "distinct (map fst m) \<Longrightarrow>
     map_of (cleanupFallbackStorage ws m) k =
       (case map_of m k of
          None \<Rightarrow> None
        | Some ts \<Rightarrow> if valid_hits ws ts = [] then None else Some (valid_hits ws ts))"
  by (simp add: cleanupFallbackStorage_def cleanup_loop_lookup split: option.splits)

lemma cleanup_distinct:
  "distinct (map fst m) \<Longrightarrow> distinct (map fst (cleanupFallbackStorage ws m))"
  by (simp add: cleanupFallbackStorage_def cleanup_loop_distinct)

lemma valid_hits_idem: "valid_hits ws (valid_hits ws ts) = valid_hits ws ts"
  by (simp add: valid_hits_def)

lemma valid_hits_all: "(\<forall>t\<in>set ts. js_gt t ws) \<Longrightarrow> valid_hits ws ts = ts"
  by (simp add: valid_hits_def)

lemma valid_hits_snoc:
  "valid_hits ws (ts @ [t]) = (if js_gt t ws then valid_hits ws ts @ [t] else valid_hits ws ts)"
  by (simp add: valid_hits_def)

subsection \<open>One call served from memory\<close>

lemma fallbackRateLimit_eq:
  assumes "parseWindow (window options) = Inr W"
  shows "fallbackRateLimit this key options now =
     Inr (result_of options now W (int (length (valid_hits (js_sub now W) (hits_of this key))) + 1),
          this\<lparr>fallbackStorage :=
            (let stored = AList.update key (valid_hits (js_sub now W) (hits_of this key) @ [now])
                            (fallbackStorage this)
             in if length stored > 1000 then cleanupFallbackStorage (js_sub now W) stored
                else stored)\<rparr>)"
  using assms
  by (simp add: fallbackRateLimit_def hits_of_def valid_hits_def result_of_def Let_def
      add.commute split: option.splits)

lemma fallbackRateLimit_Inl:
  "parseWindow (window options) = Inl err \<Longrightarrow> fallbackRateLimit this key options now = Inl err"
  by (simp add: fallbackRateLimit_def)

lemma checkRateLimit_local:
  "local_path this results \<Longrightarrow>
     checkRateLimit this results key options now = fallbackRateLimit this key options now"
  by (cases results)
     (auto simp: checkRateLimit_def local_path_def exec_fails_def redisRateLimit_def
        fallbackRateLimit_def split: sum.splits)


lemma storage_ok_lookup:
  "storage_ok m \<longleftrightarrow> distinct (map fst m) \<and> (\<forall>k. map_of m k \<noteq> Some [])"
proof -
  have "distinct (map fst m) \<Longrightarrow>
          list_all (\<lambda>entry. snd entry \<noteq> []) m \<longleftrightarrow> (\<forall>k. map_of m k \<noteq> Some [])"
    by (auto simp: list_all_iff dest: map_of_SomeD)
  then show ?thesis by (auto simp: storage_ok_def)
qed

lemma storage_ok_update:
  "storage_ok m \<Longrightarrow> ts \<noteq> [] \<Longrightarrow> storage_ok (AList.update k ts m)"
  by (simp add: storage_ok_lookup AList.distinct_update AList.update_conv)

lemma storage_ok_delete: "storage_ok m \<Longrightarrow> storage_ok (AList.delete k m)"
  by (simp add: storage_ok_lookup AList.distinct_delete AList.delete_conv)

lemma storage_ok_cleanup:
  "distinct (map fst m) \<Longrightarrow> storage_ok (cleanupFallbackStorage ws m)"
  by (simp add: storage_ok_lookup cleanup_distinct cleanup_lookup split: option.splits)

lemma fallback_redis:
  "fallbackRateLimit this key options now = Inr (r, this') \<Longrightarrow> redis this' = redis this"
  by (cases "parseWindow (window options)")
     (auto simp: fallbackRateLimit_Inl fallbackRateLimit_eq)

lemma fallback_storage_ok:
  assumes "fallbackRateLimit this key options now = Inr (r, this')"
    and "storage_ok (fallbackStorage this)"
  shows "storage_ok (fallbackStorage this')"
proof (cases "parseWindow (window options)")
  case (Inl err)
  with assms show ?thesis by (simp add: fallbackRateLimit_Inl)
next
  case (Inr W)
  let ?v = "valid_hits (js_sub now W) (hits_of this key) @ [now]"
  have ok: "storage_ok (AList.update key ?v (fallbackStorage this))"
    using assms(2) by (simp add: storage_ok_update)
  then have "distinct (map fst (AList.update key ?v (fallbackStorage this)))"
    by (simp add: storage_ok_def)
  then have "storage_ok (cleanupFallbackStorage (js_sub now W) (AList.update key ?v (fallbackStorage this)))"
    by (rule storage_ok_cleanup)
  with ok assms(1) show ?thesis
    by (auto simp: fallbackRateLimit_eq [OF Inr] Let_def)
qed

lemma fallback_hits_of:
  assumes "parseWindow (window options) = Inr W"
    and "fallbackRateLimit this key options now = Inr (r, this')"
    and "distinct (map fst (fallbackStorage this))"
  shows "hits_of this' key =
     (if length (AList.update key (valid_hits (js_sub now W) (hits_of this key) @ [now])
                   (fallbackStorage this)) > 1000 \<and> \<not> js_gt now (js_sub now W)
      then valid_hits (js_sub now W) (hits_of this key)
      else valid_hits (js_sub now W) (hits_of this key) @ [now])"
proof -
  let ?v = "valid_hits (js_sub now W) (hits_of this key)"
  let ?stored = "AList.update key (?v @ [now]) (fallbackStorage this)"
  have d: "distinct (map fst ?stored)"
    using assms(3) by (rule AList.distinct_update)
  have look: "map_of ?stored key = Some (?v @ [now])"
    by (simp add: AList.update_conv)
  have this': "fallbackStorage this' =
      (if length ?stored > 1000 then cleanupFallbackStorage (js_sub now W) ?stored else ?stored)"
    using assms(2) by (auto simp: fallbackRateLimit_eq [OF assms(1)] Let_def)
  have h': "hits_of this' key =
      (case map_of (fallbackStorage this') key of None \<Rightarrow> [] | Some ts \<Rightarrow> ts)"
    by (simp add: hits_of_def)
  show ?thesis
  proof (cases "length ?stored > 1000")
    case False
    then show ?thesis by (simp add: h' this' look)
  next
    case True
    then have "map_of (fallbackStorage this') key =
        (if valid_hits (js_sub now W) (?v @ [now]) = [] then None
         else Some (valid_hits (js_sub now W) (?v @ [now])))"
      by (simp add: this' cleanup_lookup [OF d] look)
    then show ?thesis
      using True by (auto simp: h' valid_hits_snoc valid_hits_idem)
  qed
qed

lemma fallback_result:
  assumes "parseWindow (window options) = Inr W"
    and "fallbackRateLimit this key options now = Inr (r, this')"
  shows "r = result_of options now W (int (length (valid_hits (js_sub now W) (hits_of this key))) + 1)"
  using assms(2) by (simp add: fallbackRateLimit_eq [OF assms(1)])


lemma checkRateLimit_Inl:
  "parseWindow (window options) = Inl err \<Longrightarrow>
     checkRateLimit this results key options now = Inl err"
  by (simp add: checkRateLimit_def)

lemma checkRateLimit_redis:
  "parseWindow (window options) = Inr W \<Longrightarrow> \<not> local_path this results \<Longrightarrow>
     \<exists>count. results = ExecReplies False count \<and>
       checkRateLimit this results key options now =
         Inr (result_of options now W (case count of None \<Rightarrow> 0 | Some n \<Rightarrow> n), this)"
  by (cases results)
     (auto simp: checkRateLimit_def local_path_def exec_fails_def redisRateLimit_def
        result_of_def split: option.splits)

lemma check_storage_ok:
  assumes "checkRateLimit this results key options now = Inr (r, this')"
    and "storage_ok (fallbackStorage this)"
  shows "storage_ok (fallbackStorage this')"
proof (cases "parseWindow (window options)")
  case (Inl err)
  with assms show ?thesis by (simp add: checkRateLimit_Inl)
next
  case (Inr W)
  show ?thesis
  proof (cases "local_path this results")
    case True
    with assms show ?thesis
      by (auto simp: checkRateLimit_local dest: fallback_storage_ok)
  next
    case False
    from checkRateLimit_redis [OF Inr False, of key now] assms show ?thesis by auto
  qed
qed

lemma check_redis:
  assumes "checkRateLimit this results key options now = Inr (r, this')"
  shows "redis this' = redis this"
proof (cases "parseWindow (window options)")
  case (Inl err)
  with assms show ?thesis by (simp add: checkRateLimit_Inl)
next
  case (Inr W)
  show ?thesis
  proof (cases "local_path this results")
    case True
    with assms show ?thesis
      by (auto simp: checkRateLimit_local dest: fallback_redis)
  next
    case False
    from checkRateLimit_redis [OF Inr False, of key now] assms show ?thesis by auto
  qed
qed

lemma decrement_returns: "\<exists>this'. decrementRateLimit this outcome key = Inr this'"
  by (auto simp: decrementRateLimit_def Let_def split: option.splits sum.splits)

lemma decrement_local:
  "redis this = None \<Longrightarrow>
     decrementRateLimit this outcome key =
       Inr (if hits_of this key = [] then this
            else if butlast (hits_of this key) = []
              then this\<lparr>fallbackStorage := AList.delete key (fallbackStorage this)\<rparr>
              else this\<lparr>fallbackStorage :=
                     AList.update key (butlast (hits_of this key)) (fallbackStorage this)\<rparr>)"
  by (auto simp: decrementRateLimit_def hits_of_def Let_def split: option.splits)

lemma decrement_redis_path:
  "redis this \<noteq> None \<Longrightarrow> decrementRateLimit this outcome key = Inr this"
  by (auto simp: decrementRateLimit_def split: sum.splits)

lemma decrement_storage_ok:
  assumes "decrementRateLimit this outcome key = Inr this'"
    and "storage_ok (fallbackStorage this)"
  shows "storage_ok (fallbackStorage this')"
proof (cases "redis this = None")
  case True
  with assms show ?thesis
    by (auto simp: decrement_local storage_ok_update storage_ok_delete split: if_splits)
next
  case False
  with assms show ?thesis by (simp add: decrement_redis_path)
qed

lemma healthCheck_state: "snd (healthCheck this ping) = this"
  by (simp add: healthCheck_def split: ping_outcome.splits)

lemma reachable_storage_ok: "reachable this \<Longrightarrow> storage_ok (fallbackStorage this)"
proof (induction rule: reachable.induct)
  case constructed
  show ?case by (simp add: storage_ok_def)
next
  case (initializeRedis this c)
  then show ?case by simp
next
  case (check this results key options now r this')
  then show ?case by (auto dest: check_storage_ok)
next
  case (decrement this outcome key this')
  then show ?case by (auto dest: decrement_storage_ok)
next
  case (health this ping)
  then show ?case by (simp add: healthCheck_state)
next
  case (destroy this)
  show ?case by (simp add: onModuleDestroy_def storage_ok_def)
qed

subsection \<open>The outcomes of a call\<close>



subsection \<open>Claim C2: the formulas of the result\<close>

text \<open>
  Claim C2. For every key, every policy whose window string parses and every state,
  \<open>checkRateLimit\<close> returns a record in which \<open>allowed\<close> is true exactly when
  \<open>totalHits\<close> is at most the limit, \<open>remaining\<close> is the maximum of zero and the limit
  minus \<open>totalHits\<close>, and \<open>resetTime\<close> is the time of the call plus the parsed window,
  the sum being the one the source computes (\<open>js_add\<close>: the double nearest to the
  exact sum, which is the exact sum up to \<open>2^53\<close>). The statement covers the call
  served from memory and the call answered by Redis.
\<close>

theorem result_formulas:
  assumes "parseWindow (window options) = Inr W"
  shows "\<exists>r this'. checkRateLimit this results key options now = Inr (r, this')
           \<and> allowed r = (totalHits r \<le> requests options)
           \<and> remaining r = max 0 (requests options - totalHits r)
           \<and> resetTime r = js_add now W
           \<and> (\<forall>w. W = Num w \<and> \<bar>now + w\<bar> \<le> 2 ^ 53 \<longrightarrow> resetTime r = Num (now + w))"
proof (cases "local_path this results")
  case True
  then show ?thesis
    by (simp add: checkRateLimit_local fallbackRateLimit_eq [OF assms] result_of_def
        to_double_exact)
next
  case False
  from checkRateLimit_redis [OF assms False, of key now] show ?thesis
    by (auto simp: result_of_def to_double_exact)
qed

theorem result_formulas_witness:
  "parseWindow (window \<lparr>requests = 3, window = ''1m''\<rparr>) = Inr (Num 60000)
   \<and> (\<exists>r this'. checkRateLimit \<lparr>redis = None, fallbackStorage = []\<rparr> ExecNull ''u1''
                    \<lparr>requests = 3, window = ''1m''\<rparr> 1000 = Inr (r, this')
         \<and> allowed r = (totalHits r \<le> requests \<lparr>requests = 3, window = ''1m''\<rparr>)
         \<and> remaining r = max 0 (requests \<lparr>requests = 3, window = ''1m''\<rparr> - totalHits r)
         \<and> resetTime r = Num 61000)"
proof -
  have p: "parseWindow (window \<lparr>requests = 3, window = ''1m''\<rparr>) = Inr (Num 60000)"
    by (simp add: eval_parse)
  from result_formulas [OF p, of "\<lparr>redis = None, fallbackStorage = []\<rparr>" ExecNull "''u1''" 1000]
  have "\<exists>r this'. checkRateLimit \<lparr>redis = None, fallbackStorage = []\<rparr> ExecNull ''u1''
                    \<lparr>requests = 3, window = ''1m''\<rparr> 1000 = Inr (r, this')
         \<and> allowed r = (totalHits r \<le> requests \<lparr>requests = 3, window = ''1m''\<rparr>)
         \<and> remaining r = max 0 (requests \<lparr>requests = 3, window = ''1m''\<rparr> - totalHits r)
         \<and> resetTime r = Num 61000"
    by (simp add: to_double_exact)
  with p show ?thesis by blast
qed

subsection \<open>Claim C8: the only exception of checkRateLimit\<close>



subsection \<open>Claim C9: the health check only observes\<close>

text \<open>
  Claim C9. \<open>healthCheck\<close> returns false when no Redis client is attached, and in
  every state it leaves the service as it was: the client and the map are the same
  after the call, so a following \<open>checkRateLimit\<close> behaves as it would have before.
\<close>

theorem healthCheck_observational:
  "snd (healthCheck this ping) = this
   \<and> (redis this = None \<longrightarrow> fst (healthCheck this ping) = False)
   \<and> redis (snd (healthCheck this ping)) = redis this
   \<and> fallbackStorage (snd (healthCheck this ping)) = fallbackStorage this
   \<and> checkRateLimit (snd (healthCheck this ping)) results key options now
       = checkRateLimit this results key options now"
  by (simp add: healthCheck_state) (simp add: healthCheck_def)

theorem healthCheck_observational_witness:
  "redis \<lparr>redis = None, fallbackStorage = [(''u1'', [1000])]\<rparr> = None
   \<and> healthCheck \<lparr>redis = None, fallbackStorage = [(''u1'', [1000])]\<rparr> PingOk
       = (False, \<lparr>redis = None, fallbackStorage = [(''u1'', [1000])]\<rparr>)"
  using healthCheck_observational
    [of "\<lparr>redis = None, fallbackStorage = [(''u1'', [1000])]\<rparr>" PingOk
        ExecNull "''u1''" "\<lparr>requests = 3, window = ''1m''\<rparr>" 2000]
  by (simp add: prod_eq_iff)

subsection \<open>The result and the history of a call served from memory\<close>

lemma check_local_result:
  assumes "parseWindow (window options) = Inr W" and "local_path this results"
  shows "\<exists>this'. checkRateLimit this results key options now =
      Inr (result_of options now W
             (int (length (filter (\<lambda>t. js_gt t (js_sub now W)) (hits_of this key))) + 1), this')"
  using assms(2)
  by (simp add: checkRateLimit_local fallbackRateLimit_eq [OF assms(1)] valid_hits_def)

lemma reachable_distinct: "reachable this \<Longrightarrow> distinct (map fst (fallbackStorage this))"
  by (drule reachable_storage_ok) (simp add: storage_ok_def)

lemma check_local_hits_of:
  assumes "parseWindow (window options) = Inr W" and "local_path this results"
    and "distinct (map fst (fallbackStorage this))"
    and "checkRateLimit this results key options now = Inr (r, this')"
  shows "hits_of this' key =
     (if length (AList.update key (filter (\<lambda>t. js_gt t (js_sub now W)) (hits_of this key) @ [now])
                   (fallbackStorage this)) > 1000 \<and> \<not> js_gt now (js_sub now W)
      then filter (\<lambda>t. js_gt t (js_sub now W)) (hits_of this key)
      else filter (\<lambda>t. js_gt t (js_sub now W)) (hits_of this key) @ [now])"
proof -
  from assms(2,4) have "fallbackRateLimit this key options now = Inr (r, this')"
    by (simp add: checkRateLimit_local)
  from fallback_hits_of [OF assms(1) this assms(3)] show ?thesis
    by (simp add: valid_hits_def)
qed

text \<open>The state after one check of the key \<open>u1\<close> at time 1000.\<close>

lemma reachable_after_first_check:
  "reachable \<lparr>redis = None, fallbackStorage = [(''u1'', [1000])]\<rparr>"
proof -
  have "checkRateLimit \<lparr>redis = None, fallbackStorage = []\<rparr> ExecNull ''u1''
        \<lparr>requests = 3, window = ''1m''\<rparr> 1000
      = Inr (\<lparr>allowed = True, remaining = 2, resetTime = Num 61000, totalHits = 1\<rparr>,
             \<lparr>redis = None, fallbackStorage = [(''u1'', [1000])]\<rparr>)"
    by (simp add: checkRateLimit_def fallbackRateLimit_def eval_parse)
  with reachable.constructed show ?thesis by (rule reachable.check)
qed

subsection \<open>Histories after an update or a deletion\<close>

lemma hits_of_update:
  "hits_of (this\<lparr>fallbackStorage := AList.update k ts (fallbackStorage this)\<rparr>) k' =
     (if k' = k then ts else hits_of this k')"
  by (simp add: hits_of_def AList.update_conv)

lemma hits_of_delete:
  "hits_of (this\<lparr>fallbackStorage := AList.delete k (fallbackStorage this)\<rparr>) k' =
     (if k' = k then [] else hits_of this k')"
  by (simp add: hits_of_def AList.delete_conv)

subsection \<open>Claim C6: decrement in memory\<close>

text \<open>
  Claim C6. \<open>decrementRateLimit\<close> never raises. With no Redis client attached: when the
  key has no history the state is unchanged; when the history is \<open>hs @ [h]\<close> the last
  timestamp \<open>h\<close>, the one appended most recently, is removed and nothing else changes,
  the key is deleted when \<open>hs\<close> is empty, and a following check for which all these
  hits are inside the window (each strictly greater than \<open>now - W\<close>, as the source
  tests it or, for timestamps and a clock reading below \<open>2^53\<close>, in exact arithmetic)
  returns \<open>totalHits = length (hs @ [h])\<close>, where without the decrement it returns one
  more.
\<close>

theorem decrement_undoes_last_hit:
  "(\<exists>this'. decrementRateLimit this outcome key = Inr this')
   \<and> (redis this = None \<and> hits_of this key = []
        \<longrightarrow> decrementRateLimit this outcome key = Inr this)
   \<and> (redis this = None \<and> hits_of this key = hs @ [h]
        \<and> decrementRateLimit this outcome key = Inr this' \<longrightarrow>
          hits_of this' key = hs \<and> redis this' = None
          \<and> (hs = [] \<longrightarrow> key \<notin> fst ` set (fallbackStorage this'))
          \<and> (\<forall>k. k \<noteq> key \<longrightarrow>
                map_of (fallbackStorage this') k = map_of (fallbackStorage this) k)
          \<and> (parseWindow (window options) = Inr W
               \<and> ((\<forall>t\<in>set (hs @ [h]). js_gt t (js_sub now W))
                  \<or> (\<exists>w. W = Num w \<and> \<bar>now\<bar> \<le> 2 ^ 53
                        \<and> (\<forall>t\<in>set (hs @ [h]). \<bar>t\<bar> < 2 ^ 53 \<and> now - w < t))) \<longrightarrow>
               (\<exists>r this''. checkRateLimit this' results key options now = Inr (r, this'')
                   \<and> totalHits r = int (length (hs @ [h])))
               \<and> (\<exists>r this''. checkRateLimit this results key options now = Inr (r, this'')
                   \<and> totalHits r = int (length (hs @ [h])) + 1)))"
proof -
  have returns: "\<exists>this'. decrementRateLimit this outcome key = Inr this'"
    by (rule decrement_returns)
  have noop: "redis this = None \<and> hits_of this key = []
        \<longrightarrow> decrementRateLimit this outcome key = Inr this"
    by (simp add: decrement_local)
  have pops: "redis this = None \<and> hits_of this key = hs @ [h]
        \<and> decrementRateLimit this outcome key = Inr this' \<longrightarrow>
          hits_of this' key = hs \<and> redis this' = None
          \<and> (hs = [] \<longrightarrow> key \<notin> fst ` set (fallbackStorage this'))
          \<and> (\<forall>k. k \<noteq> key \<longrightarrow>
                map_of (fallbackStorage this') k = map_of (fallbackStorage this) k)
          \<and> (parseWindow (window options) = Inr W
               \<and> ((\<forall>t\<in>set (hs @ [h]). js_gt t (js_sub now W))
                  \<or> (\<exists>w. W = Num w \<and> \<bar>now\<bar> \<le> 2 ^ 53
                        \<and> (\<forall>t\<in>set (hs @ [h]). \<bar>t\<bar> < 2 ^ 53 \<and> now - w < t))) \<longrightarrow>
               (\<exists>r this''. checkRateLimit this' results key options now = Inr (r, this'')
                   \<and> totalHits r = int (length (hs @ [h])))
               \<and> (\<exists>r this''. checkRateLimit this results key options now = Inr (r, this'')
                   \<and> totalHits r = int (length (hs @ [h])) + 1))"
  proof
    assume a: "redis this = None \<and> hits_of this key = hs @ [h]
        \<and> decrementRateLimit this outcome key = Inr this'"
    then have local: "redis this = None" and hist: "hits_of this key = hs @ [h]" by simp_all
    from a have d: "decrementRateLimit this outcome key = Inr this'" by simp
    from d have this': "this' =
        (if hs = [] then this\<lparr>fallbackStorage := AList.delete key (fallbackStorage this)\<rparr>
         else this\<lparr>fallbackStorage := AList.update key hs (fallbackStorage this)\<rparr>)"
      unfolding decrement_local [OF local] hist by auto
    have h': "hits_of this' key = hs"
      by (simp add: this' hits_of_update hits_of_delete)
    have r': "redis this' = None"
      using local by (simp add: this')
    have gone: "hs = [] \<longrightarrow> key \<notin> fst ` set (fallbackStorage this')"
      by (simp add: this' AList.delete_notin_dom)
    have others: "\<forall>k. k \<noteq> key \<longrightarrow>
                map_of (fallbackStorage this') k = map_of (fallbackStorage this) k"
      by (simp add: this' AList.update_conv AList.delete_conv)
    have next_check: "parseWindow (window options) = Inr W
               \<and> ((\<forall>t\<in>set (hs @ [h]). js_gt t (js_sub now W))
                  \<or> (\<exists>w. W = Num w \<and> \<bar>now\<bar> \<le> 2 ^ 53
                        \<and> (\<forall>t\<in>set (hs @ [h]). \<bar>t\<bar> < 2 ^ 53 \<and> now - w < t))) \<longrightarrow>
               (\<exists>r this''. checkRateLimit this' results key options now = Inr (r, this'')
                   \<and> totalHits r = int (length (hs @ [h])))
               \<and> (\<exists>r this''. checkRateLimit this results key options now = Inr (r, this'')
                   \<and> totalHits r = int (length (hs @ [h])) + 1)"
    proof
      assume b: "parseWindow (window options) = Inr W
               \<and> ((\<forall>t\<in>set (hs @ [h]). js_gt t (js_sub now W))
                  \<or> (\<exists>w. W = Num w \<and> \<bar>now\<bar> \<le> 2 ^ 53
                        \<and> (\<forall>t\<in>set (hs @ [h]). \<bar>t\<bar> < 2 ^ 53 \<and> now - w < t)))"
      then have p: "parseWindow (window options) = Inr W" by simp
      from b have "(\<forall>t\<in>set (hs @ [h]). js_gt t (js_sub now W))
                  \<or> (\<exists>w. W = Num w \<and> \<bar>now\<bar> \<le> 2 ^ 53
                        \<and> (\<forall>t\<in>set (hs @ [h]). \<bar>t\<bar> < 2 ^ 53 \<and> now - w < t))" by simp
      then have inside: "\<forall>t\<in>set (hs @ [h]). js_gt t (js_sub now W)"
      proof
        assume "\<forall>t\<in>set (hs @ [h]). js_gt t (js_sub now W)"
        then show ?thesis .
      next
        assume "\<exists>w. W = Num w \<and> \<bar>now\<bar> \<le> 2 ^ 53
                        \<and> (\<forall>t\<in>set (hs @ [h]). \<bar>t\<bar> < 2 ^ 53 \<and> now - w < t)"
        then obtain w where W: "W = Num w" and n: "\<bar>now\<bar> \<le> 2 ^ 53"
          and ts: "\<forall>t\<in>set (hs @ [h]). \<bar>t\<bar> < 2 ^ 53 \<and> now - w < t" by blast
        from parseWindow_shape [OF p] W have w: "0 \<le> w" by simp
        show ?thesis
        proof
          fix t assume "t \<in> set (hs @ [h])"
          with ts have "\<bar>t\<bar> < 2 ^ 53" and "now - w < t" by blast+
          with js_gt_sub_exact [OF _ n w, of t] show "js_gt t (js_sub now W)" by (simp add: W)
        qed
      qed
      from inside have all: "filter (\<lambda>t. js_gt t (js_sub now W)) (hs @ [h]) = hs @ [h]"
        and most: "filter (\<lambda>t. js_gt t (js_sub now W)) hs = hs" by simp_all
      have l: "local_path this results" using local by (simp add: local_path_def)
      have l': "local_path this' results" using r' by (simp add: local_path_def)
      from check_local_result [OF p l', of key now] h' most
      have after: "\<exists>r this''. checkRateLimit this' results key options now = Inr (r, this'')
                   \<and> totalHits r = int (length (hs @ [h]))"
        by (auto simp: result_of_def)
      from check_local_result [OF p l, of key now] hist all
      have before: "\<exists>r this''. checkRateLimit this results key options now = Inr (r, this'')
                   \<and> totalHits r = int (length (hs @ [h])) + 1"
        by (auto simp: result_of_def)
      from after before show "(\<exists>r this''. checkRateLimit this' results key options now = Inr (r, this'')
                   \<and> totalHits r = int (length (hs @ [h])))
               \<and> (\<exists>r this''. checkRateLimit this results key options now = Inr (r, this'')
                   \<and> totalHits r = int (length (hs @ [h])) + 1)" by blast
    qed
    from h' r' gone others next_check
    show "hits_of this' key = hs \<and> redis this' = None
          \<and> (hs = [] \<longrightarrow> key \<notin> fst ` set (fallbackStorage this'))
          \<and> (\<forall>k. k \<noteq> key \<longrightarrow>
                map_of (fallbackStorage this') k = map_of (fallbackStorage this) k)
          \<and> (parseWindow (window options) = Inr W
               \<and> ((\<forall>t\<in>set (hs @ [h]). js_gt t (js_sub now W))
                  \<or> (\<exists>w. W = Num w \<and> \<bar>now\<bar> \<le> 2 ^ 53
                        \<and> (\<forall>t\<in>set (hs @ [h]). \<bar>t\<bar> < 2 ^ 53 \<and> now - w < t))) \<longrightarrow>
               (\<exists>r this''. checkRateLimit this' results key options now = Inr (r, this'')
                   \<and> totalHits r = int (length (hs @ [h])))
               \<and> (\<exists>r this''. checkRateLimit this results key options now = Inr (r, this'')
                   \<and> totalHits r = int (length (hs @ [h])) + 1))" by blast
  qed
  from returns noop pops show ?thesis by blast
qed

theorem decrement_undoes_last_hit_witness:
  "decrementRateLimit \<lparr>redis = None, fallbackStorage = []\<rparr> ZrevrangeRejects ''u1''
     = Inr \<lparr>redis = None, fallbackStorage = []\<rparr>
   \<and> decrementRateLimit \<lparr>redis = None, fallbackStorage = [(''u1'', [1000, 2000])]\<rparr>
       ZrevrangeRejects ''u1''
     = Inr \<lparr>redis = None, fallbackStorage = [(''u1'', [1000])]\<rparr>
   \<and> decrementRateLimit \<lparr>redis = None, fallbackStorage = [(''u1'', [1000])]\<rparr>
       ZrevrangeRejects ''u1''
     = Inr \<lparr>redis = None, fallbackStorage = []\<rparr>
   \<and> hits_of \<lparr>redis = None, fallbackStorage = [(''u1'', [1000, 2000])]\<rparr> ''u1'' = [1000] @ [2000]
   \<and> parseWindow (window \<lparr>requests = 3, window = ''1m''\<rparr>) = Inr (Num 60000)
   \<and> (\<exists>r this''. checkRateLimit \<lparr>redis = None, fallbackStorage = [(''u1'', [1000])]\<rparr> ExecNull
          ''u1'' \<lparr>requests = 3, window = ''1m''\<rparr> 3000 = Inr (r, this'')
        \<and> totalHits r = 2)
   \<and> (\<exists>r this''. checkRateLimit \<lparr>redis = None, fallbackStorage = [(''u1'', [1000, 2000])]\<rparr>
          ExecNull ''u1'' \<lparr>requests = 3, window = ''1m''\<rparr> 3000 = Inr (r, this'')
        \<and> totalHits r = 3)"
proof -
  let ?e = "\<lparr>redis = None, fallbackStorage = []\<rparr>"
  let ?s2 = "\<lparr>redis = None, fallbackStorage = [(''u1'', [1000, 2000])]\<rparr>"
  let ?s1 = "\<lparr>redis = None, fallbackStorage = [(''u1'', [1000])]\<rparr>"
  let ?o = "\<lparr>requests = 3, window = ''1m''\<rparr>"
  have d0: "decrementRateLimit ?e ZrevrangeRejects ''u1'' = Inr ?e"
    by (simp add: decrementRateLimit_def)
  have d2: "decrementRateLimit ?s2 ZrevrangeRejects ''u1'' = Inr ?s1"
    by (simp add: decrementRateLimit_def)
  have d1: "decrementRateLimit ?s1 ZrevrangeRejects ''u1'' = Inr ?e"
    by (simp add: decrementRateLimit_def)
  have h2: "hits_of ?s2 ''u1'' = [1000] @ [2000]" by (simp add: hits_of_def)
  have p: "parseWindow (window ?o) = Inr (Num 60000)" by (simp add: eval_parse)
  have w: "\<forall>t\<in>set ([1000] @ [2000]). js_gt t (js_sub 3000 (Num 60000))"
    by (simp add: to_double_exact)
  have r: "redis ?s2 = None" by simp
  from decrement_undoes_last_hit
    [of ?s2 ZrevrangeRejects "''u1''" "[1000]" 2000 ?s1 ?o "Num 60000" 3000 ExecNull]
    r h2 d2 p w
  have "(\<exists>r this''. checkRateLimit ?s1 ExecNull ''u1'' ?o 3000 = Inr (r, this'')
        \<and> totalHits r = 2)
   \<and> (\<exists>r this''. checkRateLimit ?s2 ExecNull ''u1'' ?o 3000 = Inr (r, this'')
        \<and> totalHits r = 3)"
    by simp
  with d0 d2 d1 h2 p show ?thesis by blast
qed

subsection \<open>The size of the map and the window test in exact arithmetic\<close>

lemma length_update:
  "length (AList.update k v al) = (if k \<in> fst ` set al then length al else Suc (length al))"
  by (induction al) auto

lemma length_update_any: "length (AList.update k v al) = length (AList.update k v' al)"
  by (simp add: length_update)

text \<open>Whether the timestamp of a call is inside the window of that call, and the
  window test in exact arithmetic: for clock readings below \<open>2^53\<close>.\<close>

lemma own_hit_in_window:
  assumes "parseWindow w = Inr W" and "\<bar>now\<bar> < 2 ^ 53"
  shows "js_gt now (js_sub now W) \<longleftrightarrow> W \<noteq> Num 0"
proof -
  from parseWindow_shape [OF assms(1)] have "W = Infinity \<or> (\<exists>n. W = Num n \<and> 0 \<le> n)"
    by simp
  then show ?thesis
  proof
    assume "W = Infinity"
    then show ?thesis by simp
  next
    assume "\<exists>n. W = Num n \<and> 0 \<le> n"
    then obtain n where "W = Num n" "0 \<le> n" by blast
    with js_gt_own [OF assms(2), of n] show ?thesis by simp
  qed
qed

lemma kept_exact:
  assumes "\<bar>now\<bar> < 2 ^ 53" and "0 \<le> w" and "\<forall>t\<in>set ts. \<bar>t\<bar> < 2 ^ 53"
  shows "filter (\<lambda>t. js_gt t (js_sub now (Num w))) ts = filter (\<lambda>t. now - w < t) ts"
proof (rule filter_cong [OF refl])
  fix t assume "t \<in> set ts"
  with assms(3) have t: "\<bar>t\<bar> < 2 ^ 53" by blast
  from assms(1) have "\<bar>now\<bar> \<le> 2 ^ 53" by simp
  from js_gt_sub_exact [OF t this assms(2)]
  show "js_gt t (js_sub now (Num w)) = (now - w < t)" .
qed

subsection \<open>Claim C5: hits that have left the window\<close>

text \<open>
  With the window \<open>0s\<close>, which parses to zero, a call at time 5 on an empty map returns
  \<open>totalHits = 1\<close> and stores the history \<open>[5]\<close>: the one hit it counts and keeps is
  its own, whose timestamp is equal to \<open>now - W\<close> and not strictly greater.
\<close>

theorem zero_window_counts_boundary_hit:
  "parseWindow ''0s'' = Inr (Num 0)
   \<and> checkRateLimit \<lparr>redis = None, fallbackStorage = []\<rparr> ExecNull ''k''
        \<lparr>requests = 5, window = ''0s''\<rparr> 5
      = Inr (\<lparr>allowed = True, remaining = 4, resetTime = Num 5, totalHits = 1\<rparr>,
             \<lparr>redis = None, fallbackStorage = [(''k'', [5])]\<rparr>)
   \<and> \<not> (5 - 0 < (5::int))"
  by (simp add: checkRateLimit_def fallbackRateLimit_def eval_parse)

text \<open>
  Claim C5, as the code has it. In every reachable state, a \<open>checkRateLimit\<close> call
  served from memory at time \<open>now\<close> with parsed window \<open>W\<close> returns a \<open>totalHits\<close> of
  one, for the call's own hit, plus the number of hits stored under the key whose
  timestamp is strictly greater than \<open>now - W\<close>, the difference being the one the source
  computes (\<open>js_sub\<close>); for a finite window, a clock reading and stored timestamps
  below \<open>2^53\<close> that is the test \<open>now - W < t\<close> in exact arithmetic. The stored hits at
  or before \<open>now - W\<close> are not counted and are gone from the history after the call.
  That history is the remaining hits in their order followed by the own hit, with one
  exception: when the own timestamp is not strictly greater than \<open>now - W\<close> and the map
  holds more than 1000 keys once the key is stored, the cleanup of the same call removes
  the own hit again, which is then counted but not stored. For a clock reading below
  \<open>2^53\<close> the own timestamp is strictly greater than \<open>now - W\<close> exactly when the window
  is not zero, and then so is every timestamp of the history after the call.
\<close>

theorem rollover_drops_expired_hits:
  assumes "reachable this" and "local_path this results"
    and "parseWindow (window options) = Inr W"
  shows "\<exists>r this'. checkRateLimit this results key options now = Inr (r, this')
     \<and> totalHits r = int (length (filter (\<lambda>t. js_gt t (js_sub now W)) (hits_of this key))) + 1
     \<and> hits_of this' key =
         (if 1000 < length (AList.update key [now] (fallbackStorage this))
               \<and> \<not> js_gt now (js_sub now W)
          then filter (\<lambda>t. js_gt t (js_sub now W)) (hits_of this key)
          else filter (\<lambda>t. js_gt t (js_sub now W)) (hits_of this key) @ [now])
     \<and> (js_gt now (js_sub now W) \<longrightarrow> (\<forall>t\<in>set (hits_of this' key). js_gt t (js_sub now W)))
     \<and> (\<bar>now\<bar> < 2 ^ 53 \<longrightarrow> (js_gt now (js_sub now W) \<longleftrightarrow> W \<noteq> Num 0))
     \<and> (\<forall>w. W = Num w \<and> \<bar>now\<bar> < 2 ^ 53 \<and> (\<forall>t\<in>set (hits_of this key). \<bar>t\<bar> < 2 ^ 53)
            \<longrightarrow> filter (\<lambda>t. js_gt t (js_sub now W)) (hits_of this key)
                  = filter (\<lambda>t. now - w < t) (hits_of this key))"
proof -
  let ?kept = "filter (\<lambda>t. js_gt t (js_sub now W)) (hits_of this key)"
  from check_local_result [OF assms(3,2)] obtain this' where
    c: "checkRateLimit this results key options now =
      Inr (result_of options now W (int (length ?kept) + 1), this')"
    by blast
  have size: "length (AList.update key (?kept @ [now]) (fallbackStorage this))
      = length (AList.update key [now] (fallbackStorage this))"
    by (rule length_update_any)
  note h = check_local_hits_of [OF assms(3,2) reachable_distinct [OF assms(1)] c,
      unfolded size]
  have total: "totalHits (result_of options now W (int (length ?kept) + 1))
      = int (length ?kept) + 1"
    by (simp add: result_of_def)
  have inside: "js_gt now (js_sub now W) \<longrightarrow> (\<forall>t\<in>set (hits_of this' key). js_gt t (js_sub now W))"
    using h by auto
  have own: "\<bar>now\<bar> < 2 ^ 53 \<longrightarrow> (js_gt now (js_sub now W) \<longleftrightarrow> W \<noteq> Num 0)"
    using own_hit_in_window [OF assms(3)] by blast
  have exact: "\<forall>w. W = Num w \<and> \<bar>now\<bar> < 2 ^ 53 \<and> (\<forall>t\<in>set (hits_of this key). \<bar>t\<bar> < 2 ^ 53)
            \<longrightarrow> ?kept = filter (\<lambda>t. now - w < t) (hits_of this key)"
  proof (intro allI impI)
    fix w
    assume a: "W = Num w \<and> \<bar>now\<bar> < 2 ^ 53 \<and> (\<forall>t\<in>set (hits_of this key). \<bar>t\<bar> < 2 ^ 53)"
    with parseWindow_shape [OF assms(3)] have "0 \<le> w" by simp
    with a kept_exact [of now w "hits_of this key"]
    show "?kept = filter (\<lambda>t. now - w < t) (hits_of this key)" by simp
  qed
  from c total h inside own exact show ?thesis by blast
qed

theorem rollover_drops_expired_hits_witness:
  "reachable \<lparr>redis = None, fallbackStorage = [(''u1'', [1000])]\<rparr>
   \<and> local_path \<lparr>redis = None, fallbackStorage = [(''u1'', [1000])]\<rparr> ExecNull
   \<and> parseWindow (window \<lparr>requests = 3, window = ''1m''\<rparr>) = Inr (Num 60000)
   \<and> filter (\<lambda>t. js_gt t (js_sub 61000 (Num 60000)))
        (hits_of \<lparr>redis = None, fallbackStorage = [(''u1'', [1000])]\<rparr> ''u1'') = []
   \<and> js_gt 61000 (js_sub 61000 (Num 60000))
   \<and> (\<exists>r this'. checkRateLimit \<lparr>redis = None, fallbackStorage = [(''u1'', [1000])]\<rparr> ExecNull
          ''u1'' \<lparr>requests = 3, window = ''1m''\<rparr> 61000 = Inr (r, this')
        \<and> totalHits r = 1 \<and> hits_of this' ''u1'' = [61000])"
proof -
  let ?s = "\<lparr>redis = None, fallbackStorage = [(''u1'', [1000])]\<rparr>"
  let ?o = "\<lparr>requests = 3, window = ''1m''\<rparr>"
  have l: "local_path ?s ExecNull" by (simp add: local_path_def)
  have p: "parseWindow (window ?o) = Inr (Num 60000)" by (simp add: eval_parse)
  have k: "filter (\<lambda>t. js_gt t (js_sub 61000 (Num 60000))) (hits_of ?s ''u1'') = []"
    by (simp add: hits_of_def to_double_exact)
  have g: "js_gt 61000 (js_sub 61000 (Num 60000))"
    by (simp add: to_double_exact)
  from rollover_drops_expired_hits [OF reachable_after_first_check l p, of "''u1''" 61000]
  have "\<exists>r this'. checkRateLimit ?s ExecNull ''u1'' ?o 61000 = Inr (r, this')
        \<and> totalHits r = 1 \<and> hits_of this' ''u1'' = [61000]"
    unfolding k using g by simp blast
  with reachable_after_first_check l p k g show ?thesis by blast
qed

subsection \<open>Claim C7: the call counts itself\<close>




subsection \<open>Runs of calls served from memory\<close>

lemma local_path_redis: "redis this' = redis this \<Longrightarrow> local_path this' results = local_path this results"
  by (simp add: local_path_def)

lemma js_gt_mono: "js_gt a x \<Longrightarrow> a \<le> b \<Longrightarrow> js_gt b x"
  by (cases x) simp_all

lemma check_all_local:
  assumes p: "parseWindow (window options) = Inr W"
  shows "storage_ok (fallbackStorage this) \<Longrightarrow>
     (\<forall>c\<in>set calls. local_path this (fst c) \<and> t0 \<le> snd c \<and> js_gt t0 (js_sub (snd c) W)) \<Longrightarrow>
     (\<forall>h\<in>set (hits_of this key). t0 \<le> h) \<Longrightarrow>
     \<exists>rs this'. check_all this key options calls = Inr (rs, this')
       \<and> length rs = length calls
       \<and> (\<forall>i<length calls. rs ! i =
             result_of options (snd (calls ! i)) W (int (length (hits_of this key)) + int i + 1))"
proof (induction calls arbitrary: this)
  case Nil
  show ?case by simp
next
  case (Cons c calls)
  obtain results now where c: "c = (results, now)" by (cases c)
  from Cons.prems(2) c have l: "local_path this results" and lo: "t0 \<le> now" and hi: "js_gt t0 (js_sub now W)"
    by simp_all
  from hi lo have W: "js_gt now (js_sub now W)" by (rule js_gt_mono)
  from Cons.prems(3) hi have kept: "filter (\<lambda>t. js_gt t (js_sub now W)) (hits_of this key) = hits_of this key"
    by (auto simp: filter_id_conv intro: js_gt_mono)
  from check_local_result [OF p l, of key now] obtain this1 where
    step: "checkRateLimit this results key options now =
      Inr (result_of options now W (int (length (hits_of this key)) + 1), this1)"
    unfolding kept by blast
  from Cons.prems(1) have d: "distinct (map fst (fallbackStorage this))"
    by (simp add: storage_ok_def)
  from check_local_hits_of [OF p l d step] W
  have h1: "hits_of this1 key = hits_of this key @ [now]"
    unfolding kept by simp
  have ok1: "storage_ok (fallbackStorage this1)"
    using step Cons.prems(1) by (rule check_storage_ok)
  have r1: "redis this1 = redis this"
    using step by (rule check_redis)
  have calls1: "\<forall>c\<in>set calls. local_path this1 (fst c) \<and> t0 \<le> snd c \<and> js_gt t0 (js_sub (snd c) W)"
    using Cons.prems(2) by (simp add: local_path_redis [OF r1])
  have hits1: "\<forall>h\<in>set (hits_of this1 key). t0 \<le> h"
    using Cons.prems(3) lo by (simp add: h1)
  from Cons.IH [OF ok1 calls1 hits1] obtain rs this' where
    rest: "check_all this1 key options calls = Inr (rs, this')"
    and len: "length rs = length calls"
    and each: "\<forall>i<length calls. rs ! i =
             result_of options (snd (calls ! i)) W (int (length (hits_of this1 key)) + int i + 1)"
    by blast
  have run: "check_all this key options (c # calls) =
      Inr (result_of options now W (int (length (hits_of this key)) + 1) # rs, this')"
    by (simp add: c step rest)
  have "(result_of options now W (int (length (hits_of this key)) + 1) # rs) ! i =
      result_of options (snd ((c # calls) ! i)) W (int (length (hits_of this key)) + int i + 1)"
    if "i < length (c # calls)" for i
  proof (cases i)
    case 0
    then show ?thesis by (simp add: c)
  next
    case (Suc j)
    with that have "j < length calls" by simp
    with each have "rs ! j =
        result_of options (snd (calls ! j)) W (int (length (hits_of this1 key)) + int j + 1)"
      by blast
    then show ?thesis by (simp add: Suc h1 algebra_simps)
  qed
  with run len show ?case by auto
qed

subsection \<open>Claim C1: counting up to the limit and one beyond\<close>

text \<open>
  Claim C1. Take a key with no hits recorded in a reachable state, a policy with limit
  \<open>L \<ge> 1\<close> whose window parses to \<open>W\<close>, and \<open>L + 1\<close> consecutive \<open>checkRateLimit\<close>
  calls on that key and policy, all served from memory and all issued within one
  window of the first and not before it: at each call the first timestamp is strictly
  greater than \<open>now - W\<close>, either as the source tests it or, for clock readings below
  \<open>2^53\<close>, as \<open>now < first + W\<close> in exact arithmetic. Then no call raises; the call
  number \<open>i + 1\<close>, for \<open>i < L\<close>, returns \<open>allowed = true\<close>, \<open>totalHits = i + 1\<close> and
  \<open>remaining = L - (i + 1)\<close>; the last call returns \<open>allowed = false\<close>,
  \<open>totalHits = L + 1\<close> and \<open>remaining = 0\<close>; each \<open>resetTime\<close> is the time of the call
  plus the window.
\<close>

theorem limit_boundary:
  assumes "reachable this"
    and "parseWindow (window options) = Inr W"
    and "requests options = int L" and "1 \<le> L"
    and "hits_of this key = []"
    and "length calls = L + 1"
    and "\<forall>(results, now)\<in>set calls.
           local_path this results \<and> snd (hd calls) \<le> now
           \<and> (js_gt (snd (hd calls)) (js_sub now W)
              \<or> (\<exists>w. W = Num w \<and> now < snd (hd calls) + w
                    \<and> \<bar>snd (hd calls)\<bar> < 2 ^ 53 \<and> \<bar>now\<bar> \<le> 2 ^ 53))"
  shows "\<exists>rs this'. check_all this key options calls = Inr (rs, this')
     \<and> length rs = L + 1
     \<and> (\<forall>i<L. rs ! i = \<lparr>allowed = True, remaining = int L - int (i + 1),
                          resetTime = js_add (snd (calls ! i)) W, totalHits = int (i + 1)\<rparr>)
     \<and> rs ! L = \<lparr>allowed = False, remaining = 0,
                  resetTime = js_add (snd (calls ! L)) W, totalHits = int L + 1\<rparr>
     \<and> (\<forall>w i. W = Num w \<and> i \<le> L \<and> \<bar>snd (calls ! i) + w\<bar> \<le> 2 ^ 53
            \<longrightarrow> resetTime (rs ! i) = Num (snd (calls ! i) + w))"
proof -
  have ok: "storage_ok (fallbackStorage this)"
    using assms(1) by (rule reachable_storage_ok)
  have calls: "\<forall>c\<in>set calls. local_path this (fst c) \<and> snd (hd calls) \<le> snd c
      \<and> js_gt (snd (hd calls)) (js_sub (snd c) W)"
  proof
    fix c assume c: "c \<in> set calls"
    obtain results now where eq: "c = (results, now)" by (cases c)
    from assms(7) c eq have l: "local_path this results" and lo: "snd (hd calls) \<le> now"
      and w: "js_gt (snd (hd calls)) (js_sub now W)
              \<or> (\<exists>w. W = Num w \<and> now < snd (hd calls) + w
                    \<and> \<bar>snd (hd calls)\<bar> < 2 ^ 53 \<and> \<bar>now\<bar> \<le> 2 ^ 53)"
      by auto
    from w have "js_gt (snd (hd calls)) (js_sub now W)"
    proof
      assume "js_gt (snd (hd calls)) (js_sub now W)"
      then show ?thesis .
    next
      assume "\<exists>w. W = Num w \<and> now < snd (hd calls) + w
                    \<and> \<bar>snd (hd calls)\<bar> < 2 ^ 53 \<and> \<bar>now\<bar> \<le> 2 ^ 53"
      then obtain w where W: "W = Num w" and lt: "now < snd (hd calls) + w"
        and t: "\<bar>snd (hd calls)\<bar> < 2 ^ 53" and n: "\<bar>now\<bar> \<le> 2 ^ 53" by blast
      from parseWindow_shape [OF assms(2)] W have "0 \<le> w" by simp
      from js_gt_sub_exact [OF t n this] lt show ?thesis by (simp add: W)
    qed
    with l lo show "local_path this (fst c) \<and> snd (hd calls) \<le> snd c
      \<and> js_gt (snd (hd calls)) (js_sub (snd c) W)"
      by (simp add: eq)
  qed
  have none: "\<forall>h\<in>set (hits_of this key). snd (hd calls) \<le> h"
    by (simp add: assms(5))
  from check_all_local [OF assms(2) ok calls none] obtain rs this' where
    run: "check_all this key options calls = Inr (rs, this')"
    and len: "length rs = length calls"
    and each: "\<forall>i<length calls. rs ! i =
             result_of options (snd (calls ! i)) W (int (length (hits_of this key)) + int i + 1)"
    by blast
  have below: "\<forall>i<L. rs ! i = \<lparr>allowed = True, remaining = int L - int (i + 1),
                          resetTime = js_add (snd (calls ! i)) W, totalHits = int (i + 1)\<rparr>"
    using each by (simp add: assms(3,5,6) result_of_def)
  have last: "rs ! L = \<lparr>allowed = False, remaining = 0,
                  resetTime = js_add (snd (calls ! L)) W, totalHits = int L + 1\<rparr>"
    using each by (simp add: assms(3,5,6) result_of_def)
  have exact: "\<forall>w i. W = Num w \<and> i \<le> L \<and> \<bar>snd (calls ! i) + w\<bar> \<le> 2 ^ 53
            \<longrightarrow> resetTime (rs ! i) = Num (snd (calls ! i) + w)"
    using each by (simp add: assms(6) result_of_def to_double_exact)
  from run len below last exact show ?thesis by (simp add: assms(6))
qed

theorem limit_boundary_witness:
  "reachable \<lparr>redis = None, fallbackStorage = []\<rparr>
   \<and> parseWindow (window \<lparr>requests = 3, window = ''1m''\<rparr>) = Inr (Num 60000)
   \<and> requests \<lparr>requests = 3, window = ''1m''\<rparr> = int 3
   \<and> hits_of \<lparr>redis = None, fallbackStorage = []\<rparr> ''u1'' = []
   \<and> length [(ExecNull, 1000), (ExecNull, 1001), (ExecNull, 1500), (ExecNull, 60999::int)] = 3 + 1
   \<and> list_all (\<lambda>(results, now). local_path \<lparr>redis = None, fallbackStorage = []\<rparr> results
                  \<and> 1000 \<le> now \<and> now < 1000 + 60000 \<and> \<bar>now\<bar> \<le> 2 ^ 53
                  \<and> js_gt 1000 (js_sub now (Num 60000)))
        [(ExecNull, 1000), (ExecNull, 1001), (ExecNull, 1500), (ExecNull, 60999::int)]
   \<and> (\<exists>rs this'. check_all \<lparr>redis = None, fallbackStorage = []\<rparr> ''u1''
          \<lparr>requests = 3, window = ''1m''\<rparr>
          [(ExecNull, 1000), (ExecNull, 1001), (ExecNull, 1500), (ExecNull, 60999)] = Inr (rs, this')
        \<and> rs ! 0 = \<lparr>allowed = True, remaining = 2, resetTime = Num 61000, totalHits = 1\<rparr>
        \<and> rs ! 1 = \<lparr>allowed = True, remaining = 1, resetTime = Num 61001, totalHits = 2\<rparr>
        \<and> rs ! 2 = \<lparr>allowed = True, remaining = 0, resetTime = Num 61500, totalHits = 3\<rparr>
        \<and> rs ! 3 = \<lparr>allowed = False, remaining = 0, resetTime = Num 120999, totalHits = 4\<rparr>)"
proof -
  let ?e = "\<lparr>redis = None, fallbackStorage = []\<rparr>"
  let ?o = "\<lparr>requests = 3, window = ''1m''\<rparr>"
  let ?calls = "[(ExecNull, 1000), (ExecNull, 1001), (ExecNull, 1500), (ExecNull, 60999::int)]"
  have r: "reachable ?e" by (rule reachable.constructed)
  have p: "parseWindow (window ?o) = Inr (Num 60000)" by (simp add: eval_parse)
  have q: "requests ?o = int 3" by simp
  have one: "1 \<le> (3::nat)" by simp
  have h: "hits_of ?e ''u1'' = []" by (simp add: hits_of_def)
  have n: "length ?calls = 3 + 1" by simp
  have w: "\<forall>(results, now)\<in>set ?calls.
      local_path ?e results \<and> snd (hd ?calls) \<le> now
      \<and> (js_gt (snd (hd ?calls)) (js_sub now (Num 60000))
         \<or> (\<exists>w. Num 60000 = Num w \<and> now < snd (hd ?calls) + w
               \<and> \<bar>snd (hd ?calls)\<bar> < 2 ^ 53 \<and> \<bar>now\<bar> \<le> 2 ^ 53))"
    by (simp add: local_path_def)
  have w': "list_all (\<lambda>(results, now). local_path ?e results
                  \<and> 1000 \<le> now \<and> now < 1000 + 60000 \<and> \<bar>now\<bar> \<le> 2 ^ 53
                  \<and> js_gt 1000 (js_sub now (Num 60000))) ?calls"
    by (simp add: local_path_def to_double_exact)
  from limit_boundary [OF r p q one h n w] obtain rs this' where
    run: "check_all ?e ''u1'' ?o ?calls = Inr (rs, this')"
    and below: "\<forall>i<3. rs ! i = \<lparr>allowed = True, remaining = int 3 - int (i + 1),
                          resetTime = js_add (snd (?calls ! i)) (Num 60000),
                          totalHits = int (i + 1)\<rparr>"
    and last: "rs ! 3 = \<lparr>allowed = False, remaining = 0,
                  resetTime = js_add (snd (?calls ! 3)) (Num 60000), totalHits = int 3 + 1\<rparr>"
    by blast
  from below have "rs ! 0 = \<lparr>allowed = True, remaining = 2, resetTime = Num 61000, totalHits = 1\<rparr>"
    and "rs ! 1 = \<lparr>allowed = True, remaining = 1, resetTime = Num 61001, totalHits = 2\<rparr>"
    and "rs ! 2 = \<lparr>allowed = True, remaining = 0, resetTime = Num 61500, totalHits = 3\<rparr>"
    by (simp_all add: to_double_exact)
  moreover from last
  have "rs ! 3 = \<lparr>allowed = False, remaining = 0, resetTime = Num 120999, totalHits = 4\<rparr>"
    by (simp add: to_double_exact)
  ultimately show ?thesis using r p q h n w' run by blast
qed

subsection \<open>Crowded maps\<close>












subsection \<open>Claim C10: no key with an empty history\<close>





end
